theory Spec2Isabelle
  imports Complex_Main "HOL-Library.Finite_Map"
begin

section \<open>The TTL cache (internal/cache/memory.go)\<close>

text \<open>
  Time is an integer count of nanoseconds on one clock. Every read of \<open>time.Now()\<close> in the
  source is an argument \<open>now\<close> of the model, and a \<open>time.Duration\<close> is an integer number of
  nanoseconds. \<open>t.After(u)\<close> is the strict comparison \<open>u < t\<close>, and \<open>t.Add(d)\<close> is \<open>t + d\<close>
  (Go's \<open>Time.Add\<close> does not wrap around in the range of a duration).

  Each operation of the source holds the cache's lock for its whole body, so an operation
  is one atomic step of the model and the lock itself is not modelled.
\<close>

definition After :: "int \<Rightarrow> int \<Rightarrow> bool" where
  "After t u = (u < t)"

record 'v CacheItem =
  Data :: 'v
  ExpiresAt :: int

record 'v MemoryCache =
  data :: "(string, 'v CacheItem) fmap"
  ttl :: int

definition NewMemoryCache :: "int \<Rightarrow> 'v MemoryCache" where
  "NewMemoryCache d = \<lparr>data = fmempty, ttl = d\<rparr>"

text \<open>
  \<open>Get\<close> returns Go's pair \<open>(value, found)\<close>: \<open>Some v\<close> stands for \<open>(v, true)\<close> and \<open>None\<close>
  for \<open>(nil, false)\<close>.
\<close>

definition Get :: "'v MemoryCache \<Rightarrow> int \<Rightarrow> string \<Rightarrow> 'v option" where
  "Get c now key =
     (case fmlookup (data c) key of
        None \<Rightarrow> None
      | Some item \<Rightarrow> if After now (ExpiresAt item) then None else Some (Data item))"

definition Set :: "'v MemoryCache \<Rightarrow> int \<Rightarrow> string \<Rightarrow> 'v \<Rightarrow> 'v MemoryCache" where
  "Set c now key val =
     c\<lparr>data := fmupd key \<lparr>Data = val, ExpiresAt = now + ttl c\<rparr> (data c)\<rparr>"

definition Delete :: "'v MemoryCache \<Rightarrow> string \<Rightarrow> 'v MemoryCache" where
  "Delete c key = c\<lparr>data := fmdrop key (data c)\<rparr>"

text \<open>
  A \<open>for ... range c.data\<close> loop visits every entry of the map once, in an order Go leaves
  open. The order is an argument of the model: a list \<open>ks\<close> of the keys of the map, each
  once. An entry deleted before the loop reaches it is not visited.
\<close>

definition range_order :: "('k, 'a) fmap \<Rightarrow> 'k list \<Rightarrow> bool" where
  "range_order m ks = (distinct ks \<and> set ks = fmdom' m)"

text \<open>One pass of the body of \<open>cleanup\<close>'s ticker loop, at the clock reading \<open>now\<close>.\<close>

fun cleanup_range ::
  "int \<Rightarrow> string list \<Rightarrow> (string, 'v CacheItem) fmap \<Rightarrow> (string, 'v CacheItem) fmap" where
  "cleanup_range now [] d = d"
| "cleanup_range now (key # ks) d =
     (case fmlookup d key of
        None \<Rightarrow> cleanup_range now ks d
      | Some item \<Rightarrow>
          if After now (ExpiresAt item) then cleanup_range now ks (fmdrop key d)
          else cleanup_range now ks d)"

definition cleanup :: "'v MemoryCache \<Rightarrow> int \<Rightarrow> string list \<Rightarrow> 'v MemoryCache" where
  "cleanup c now ks = c\<lparr>data := cleanup_range now ks (data c)\<rparr>"

fun Stats_range :: "int \<Rightarrow> (string, 'v CacheItem) fmap \<Rightarrow> string list \<Rightarrow> int \<Rightarrow> int" where
  "Stats_range now d [] expired = expired"
| "Stats_range now d (key # ks) expired =
     (case fmlookup d key of
        None \<Rightarrow> Stats_range now d ks expired
      | Some item \<Rightarrow>
          Stats_range now d ks (if After now (ExpiresAt item) then expired + 1 else expired))"

definition Stats :: "'v MemoryCache \<Rightarrow> int \<Rightarrow> string list \<Rightarrow> (string \<rightharpoonup> int)" where
  "Stats c now ks =
     (let total = int (card (fmdom' (data c)));
          expired = Stats_range now (data c) ks 0
      in [''total'' \<mapsto> total, ''active'' \<mapsto> total - expired, ''expired'' \<mapsto> expired])"

text \<open>The entries that \<open>now.After(item.ExpiresAt)\<close> holds for.\<close>

definition expired_keys :: "(string, 'v CacheItem) fmap \<Rightarrow> int \<Rightarrow> string set" where
  "expired_keys d now = {k \<in> fmdom' d. \<exists>item. fmlookup d k = Some item \<and> ExpiresAt item < now}"

text \<open>
  The operations that change the cache, as values, so that a history of calls is a list.
  \<open>sets_key k x\<close> says that the call \<open>x\<close> is a \<open>Set\<close> of the key \<open>k\<close>.
\<close>

datatype 'v cache_op = OpSet int string 'v | OpDelete string | OpCleanup int "string list"

fun apply_cache_op :: "'v MemoryCache \<Rightarrow> 'v cache_op \<Rightarrow> 'v MemoryCache" where
  "apply_cache_op c (OpSet now key val) = Set c now key val"
| "apply_cache_op c (OpDelete key) = Delete c key"
| "apply_cache_op c (OpCleanup now ks) = cleanup c now ks"

fun run_cache_ops :: "'v MemoryCache \<Rightarrow> 'v cache_op list \<Rightarrow> 'v MemoryCache" where
  "run_cache_ops c [] = c"
| "run_cache_ops c (x # xs) = run_cache_ops (apply_cache_op c x) xs"

fun sets_key :: "string \<Rightarrow> 'v cache_op \<Rightarrow> bool" where
  "sets_key k (OpSet now key val) = (key = k)"
| "sets_key k (OpDelete key) = False"
| "sets_key k (OpCleanup now ks) = False"

text \<open>A cache with three entries that expire at 5, 7 and 9.\<close>

definition stats_example :: "nat MemoryCache" where
  "stats_example = Set (Set (Set (NewMemoryCache 5) 0 ''a'' 1) 2 ''b'' 2) 4 ''c'' 3"

section \<open>The admission controller (internal/middleware, internal/api/handlers.go)\<close>

text \<open>
  The middleware keeps one \<open>*rate.Limiter\<close> per client address. The type \<open>rate.Limiter\<close> and
  its functions \<open>rate.NewLimiter\<close>, \<open>Allow\<close> and \<open>Tokens\<close> belong to the package
  \<open>golang.org/x/time/rate\<close>, which is not among the sources; they are modelled from the
  specification's token bucket. Token counts are rational numbers: the rounding of the
  package's \<open>float64\<close> arithmetic is not modelled. Everything else below is translated from
  the source.
\<close>

text \<open>
  Modelled from the spec: the type \<open>rate.Limiter\<close>, as the specification's TokenBucket
  \<open>{capacity, refillRatePerSecond, tokens, lastRefill}\<close>.
\<close>

record Limiter =
  capacity :: int
  refillRatePerSecond :: rat
  tokens :: rat
  lastRefill :: int

text \<open>
  Modelled from the spec: \<open>rate.NewLimiter(limit, burst)\<close>, a bucket "initialized to
  \<open>tokens = capacity\<close>". The call reads no clock, so \<open>lastRefill\<close> starts at the zero time,
  as a Go \<open>time.Time\<close> field does.
\<close>

definition NewLimiter :: "rat \<Rightarrow> int \<Rightarrow> Limiter" where
  "NewLimiter r b = \<lparr>capacity = b, refillRatePerSecond = r, tokens = of_int b, lastRefill = 0\<rparr>"

text \<open>
  Modelled from the spec: the lazy refill, "tokens increase by
  \<open>elapsed * refillRatePerSecond\<close>, capped at \<open>capacity\<close>", with the elapsed time in seconds
  (clock readings are in nanoseconds).
\<close>

definition refill :: "Limiter \<Rightarrow> int \<Rightarrow> Limiter" where
  "refill b now =
     b\<lparr>tokens := min (of_int (capacity b))
                     (tokens b + of_int (now - lastRefill b) / 1000000000 * refillRatePerSecond b),
       lastRefill := now\<rparr>"

text \<open>
  Modelled from the spec: \<open>Limiter.Allow()\<close>, which refills and then "returns \<open>true\<close> and
  decrements tokens by 1 if \<open>tokens >= 1\<close>; returns \<open>false\<close> and leaves tokens unchanged
  otherwise". The result is the decision and the bucket after the call.
\<close>

definition Allow :: "Limiter \<Rightarrow> int \<Rightarrow> bool \<times> Limiter" where
  "Allow b now =
     (let b' = refill b now
      in if 1 \<le> tokens b' then (True, b'\<lparr>tokens := tokens b' - 1\<rparr>) else (False, b'))"

text \<open>
  Modelled from the spec: \<open>Limiter.Tokens()\<close>, the current token count (the
  specification's \<open>Remaining\<close> is its floor). It changes nothing.
\<close>

definition Tokens :: "Limiter \<Rightarrow> int \<Rightarrow> rat" where
  "Tokens b now = tokens (refill b now)"

text \<open>
  \<open>IPRateLimiter\<close> maps an address to a pointer to its limiter. Pointers are indices into
  a store of limiters, a list that every registry of the process shares: \<open>rate.NewLimiter\<close>
  allocates by appending a cell, and no cell is ever reused. \<open>rate.Limit(rps)\<close> converts the
  integer to the rate. The lock \<open>mu\<close> is held for the whole body of each method, so a
  method is one atomic step.
\<close>

record IPRateLimiter =
  limiters :: "(string, nat) fmap"
  limit :: rat
  burst :: int

definition NewIPRateLimiter :: "int \<Rightarrow> int \<Rightarrow> IPRateLimiter" where
  "NewIPRateLimiter rps b = \<lparr>limiters = fmempty, limit = of_int rps, burst = b\<rparr>"

text \<open>
  \<open>GetLimiter\<close> returns the pointer, the registry and the store after the call.
\<close>

definition GetLimiter ::
  "IPRateLimiter \<Rightarrow> Limiter list \<Rightarrow> string \<Rightarrow> nat \<times> IPRateLimiter \<times> Limiter list" where
  "GetLimiter i h ip =
     (case fmlookup (limiters i) ip of
        Some limiter \<Rightarrow> (limiter, i, h)
      | None \<Rightarrow>
          (length h, i\<lparr>limiters := fmupd ip (length h) (limiters i)\<rparr>,
           h @ [NewLimiter (limit i) (burst i)]))"

text \<open>
  A method call through a pointer: \<open>None\<close> stands for a pointer to no cell of the store,
  which Go does not have; the properties below show that it never arises.
\<close>

definition Allow_at :: "Limiter list \<Rightarrow> nat \<Rightarrow> int \<Rightarrow> (bool \<times> Limiter list) option" where
  "Allow_at h r now =
     (if r < length h then (case Allow (h ! r) now of (ok, b') \<Rightarrow> Some (ok, h[r := b']))
      else None)"

definition Tokens_at :: "Limiter list \<Rightarrow> nat \<Rightarrow> int \<Rightarrow> rat option" where
  "Tokens_at h r now = (if r < length h then Some (Tokens (h ! r) now) else None)"

text \<open>
  \<open>CleanupOldEntries\<close> ranges over the registry. Each visit reads the clock inside
  \<open>Tokens()\<close>, so the visiting order is a list of addresses, each with its clock reading.
\<close>

fun CleanupOldEntries_range ::
  "int \<Rightarrow> Limiter list \<Rightarrow> (string \<times> int) list \<Rightarrow> (string, nat) fmap \<Rightarrow> (string, nat) fmap option" where
  "CleanupOldEntries_range b h [] m = Some m"
| "CleanupOldEntries_range b h ((ip, now) # ks) m =
     (case fmlookup m ip of
        None \<Rightarrow> CleanupOldEntries_range b h ks m
      | Some limiter \<Rightarrow>
          (case Tokens_at h limiter now of
             None \<Rightarrow> None
           | Some t \<Rightarrow>
               if t = of_int b then CleanupOldEntries_range b h ks (fmdrop ip m)
               else CleanupOldEntries_range b h ks m))"

definition CleanupOldEntries ::
  "IPRateLimiter \<Rightarrow> Limiter list \<Rightarrow> (string \<times> int) list \<Rightarrow> IPRateLimiter option" where
  "CleanupOldEntries i h ks =
     (case CleanupOldEntries_range (burst i) h ks (limiters i) of
        None \<Rightarrow> None
      | Some m \<Rightarrow> Some (i\<lparr>limiters := m\<rparr>))"

text \<open>
  The handler that \<open>RateLimitMiddleware(rps, burst)\<close> returns, run for the request of the
  client \<open>ip\<close> at the clock reading \<open>now\<close> on the registry the middleware made with
  \<open>NewIPRateLimiter(rps, burst)\<close>. The decision \<open>True\<close> is \<open>c.Next()\<close>; \<open>False\<close> is the
  answer 429 with \<open>c.Abort()\<close>. The headers and the body of the answer are not modelled;
  the two middlewares differ only there.
\<close>

definition RateLimitMiddleware ::
  "IPRateLimiter \<Rightarrow> Limiter list \<Rightarrow> string \<Rightarrow> int \<Rightarrow> (bool \<times> IPRateLimiter \<times> Limiter list) option" where
  "RateLimitMiddleware i h ip now =
     (case GetLimiter i h ip of
        (ipLimiter, i', h') \<Rightarrow>
          (case Allow_at h' ipLimiter now of
             None \<Rightarrow> None
           | Some (ok, h'') \<Rightarrow> Some (ok, i', h'')))"

definition ScrapeRateLimitMiddleware ::
  "IPRateLimiter \<Rightarrow> Limiter list \<Rightarrow> string \<Rightarrow> int \<Rightarrow> (bool \<times> IPRateLimiter \<times> Limiter list) option" where
  "ScrapeRateLimitMiddleware i h ip now =
     (case GetLimiter i h ip of
        (ipLimiter, i', h') \<Rightarrow>
          (case Allow_at h' ipLimiter now of
             None \<Rightarrow> None
           | Some (ok, h'') \<Rightarrow> Some (ok, i', h'')))"

text \<open>
  \<open>SetupRoutes\<close> builds the general middleware for the group \<open>/api/v1\<close> and the scrape
  middleware for the group below it, each from one configuration value passed twice. Of
  \<open>Config\<close> only the two rate limits are modelled. \<open>Routes\<close> holds the two registries and
  the store they share.
\<close>

record Config =
  RateLimitPerMinute :: int
  ScrapeRateLimit :: int

record Routes =
  store :: "Limiter list"
  general :: IPRateLimiter
  scrape :: IPRateLimiter

definition SetupRoutes :: "Config \<Rightarrow> Routes" where
  "SetupRoutes cfg =
     \<lparr>store = [],
      general = NewIPRateLimiter (RateLimitPerMinute cfg) (RateLimitPerMinute cfg),
      scrape = NewIPRateLimiter (ScrapeRateLimit cfg) (ScrapeRateLimit cfg)\<rparr>"

text \<open>
  A request passing the general middleware, and a request passing the scrape middleware.
\<close>

definition general_request :: "Routes \<Rightarrow> string \<Rightarrow> int \<Rightarrow> (bool \<times> Routes) option" where
  "general_request s ip now =
     (case RateLimitMiddleware (general s) (store s) ip now of
        None \<Rightarrow> None
      | Some (ok, g', h') \<Rightarrow> Some (ok, s\<lparr>store := h', general := g'\<rparr>))"

definition scrape_request :: "Routes \<Rightarrow> string \<Rightarrow> int \<Rightarrow> (bool \<times> Routes) option" where
  "scrape_request s ip now =
     (case ScrapeRateLimitMiddleware (scrape s) (store s) ip now of
        None \<Rightarrow> None
      | Some (ok, sc', h') \<Rightarrow> Some (ok, s\<lparr>store := h', scrape := sc'\<rparr>))"

text \<open>
  The requests of a list of clients, each with its clock reading, served in order by one
  middleware; the result lists the decisions.
\<close>

fun serve_all ::
  "IPRateLimiter \<Rightarrow> Limiter list \<Rightarrow> (string \<times> int) list \<Rightarrow>
   (bool list \<times> IPRateLimiter \<times> Limiter list) option" where
  "serve_all i h [] = Some ([], i, h)"
| "serve_all i h ((ip, now) # rs) =
     (case RateLimitMiddleware i h ip now of
        None \<Rightarrow> None
      | Some (res, i', h') \<Rightarrow>
          (case serve_all i' h' rs of
             None \<Rightarrow> None
           | Some (out, i'', h'') \<Rightarrow> Some (res # out, i'', h'')))"

text \<open>
  The invariant of a registry in a store: every pointer refers to a cell of the store,
  and no two addresses share a limiter. \<open>routes_ok\<close> adds that the two tiers share no
  limiter. \<open>bucket_of\<close> is the bucket that the next request of an address draws from: its
  limiter if the registry has one, a new one otherwise.
\<close>

definition registry_ok :: "IPRateLimiter \<Rightarrow> Limiter list \<Rightarrow> bool" where
  "registry_ok i h =
     ((\<forall>ip \<in> fmdom' (limiters i). the (fmlookup (limiters i) ip) < length h) \<and>
      inj_on (fmlookup (limiters i)) (fmdom' (limiters i)))"

definition routes_ok :: "Routes \<Rightarrow> bool" where
  "routes_ok s =
     (registry_ok (general s) (store s) \<and> registry_ok (scrape s) (store s) \<and>
      fmran' (limiters (general s)) \<inter> fmran' (limiters (scrape s)) = {})"

definition bucket_of :: "IPRateLimiter \<Rightarrow> Limiter list \<Rightarrow> string \<Rightarrow> Limiter" where
  "bucket_of i h ip =
     (case fmlookup (limiters i) ip of
        Some r \<Rightarrow> h ! r
      | None \<Rightarrow> NewLimiter (limit i) (burst i))"

text \<open>
  A bucket of the general tier of the default configuration, drained at the clock reading 5.
\<close>

definition drained_example :: Limiter where
  "drained_example = (NewLimiter 60 60)\<lparr>tokens := 0, lastRefill := 5\<rparr>"

section \<open>Properties of the cache\<close>

lemma Get_Some_iff:
  "Get c now k = Some v \<longleftrightarrow> (\<exists>e. fmlookup (data c) k = Some \<lparr>Data = v, ExpiresAt = e\<rparr> \<and> now \<le> e)"
proof
  assume "Get c now k = Some v"
  then obtain item where i: "fmlookup (data c) k = Some item" "\<not> ExpiresAt item < now" "Data item = v"
    by (auto simp: Get_def After_def split: option.splits if_splits)
  then have "item = \<lparr>Data = v, ExpiresAt = ExpiresAt item\<rparr>" by simp
  with i show "\<exists>e. fmlookup (data c) k = Some \<lparr>Data = v, ExpiresAt = e\<rparr> \<and> now \<le> e"
    by (metis not_less)
next
  assume "\<exists>e. fmlookup (data c) k = Some \<lparr>Data = v, ExpiresAt = e\<rparr> \<and> now \<le> e"
  then show "Get c now k = Some v"
    by (auto simp: Get_def After_def)
qed


lemma cleanup_range_lookup:
  "fmlookup (cleanup_range now ks d) k =
     (case fmlookup d k of
        None \<Rightarrow> None
      | Some item \<Rightarrow> if k \<in> set ks \<and> ExpiresAt item < now then None else Some item)"
proof (induction ks arbitrary: d)
  case Nil
  then show ?case by (simp split: option.splits)
next
  case (Cons a ks)
  show ?case
  proof (cases "fmlookup d a")
    case None
    then show ?thesis using Cons.IH [of d] by (auto split: option.splits)
  next
    case (Some item)
    then show ?thesis
      using Cons.IH [of d] Cons.IH [of "fmdrop a d"]
      by (auto simp: After_def split: option.splits)
  qed
qed

lemma expired_keys_Cons:
  "fmlookup d a = Some item \<Longrightarrow>
   expired_keys d now \<inter> set (a # ks) =
     (if ExpiresAt item < now then insert a (expired_keys d now \<inter> set ks)
      else expired_keys d now \<inter> set ks)"
  by (auto simp: expired_keys_def fmlookup_dom'_iff)

lemma Stats_range_count:
  "distinct ks \<Longrightarrow> set ks \<subseteq> fmdom' d \<Longrightarrow>
   Stats_range now d ks n = n + int (card (expired_keys d now \<inter> set ks))"
proof (induction ks arbitrary: n)
  case Nil
  then show ?case by simp
next
  case (Cons a ks)
  from Cons.prems obtain item where item: "fmlookup d a = Some item"
    by (auto simp: fmlookup_dom'_iff)
  have fin: "finite (expired_keys d now \<inter> set ks)" by simp
  have notin: "a \<notin> expired_keys d now \<inter> set ks" using Cons.prems by simp
  from Cons.prems have IH: "\<And>m. Stats_range now d ks m = m + int (card (expired_keys d now \<inter> set ks))"
    using Cons.IH by simp
  have step: "Stats_range now d (a # ks) n =
      Stats_range now d ks (if ExpiresAt item < now then n + 1 else n)"
    using item by (simp add: After_def)
  show ?case
  proof (cases "ExpiresAt item < now")
    case True
    then have "expired_keys d now \<inter> set (a # ks) = insert a (expired_keys d now \<inter> set ks)"
      using expired_keys_Cons [OF item, of now ks] by simp
    then have "card (expired_keys d now \<inter> set (a # ks)) = Suc (card (expired_keys d now \<inter> set ks))"
      using card_insert_disjoint [OF fin notin] by simp
    with True show ?thesis by (simp only: step IH) simp
  next
    case False
    then have "expired_keys d now \<inter> set (a # ks) = expired_keys d now \<inter> set ks"
      using expired_keys_Cons [OF item, of now ks] by simp
    with False show ?thesis by (simp only: step IH) simp
  qed
qed

lemma expired_keys_subset: "expired_keys d now \<subseteq> fmdom' d"
  by (auto simp: expired_keys_def)

lemma Stats_values:
  assumes "range_order (data c) ks"
  shows "Stats c now ks ''total'' = Some (int (card (fmdom' (data c))))"
    and "Stats c now ks ''expired'' = Some (int (card (expired_keys (data c) now)))"
    and "Stats c now ks ''active'' =
           Some (int (card (fmdom' (data c))) - int (card (expired_keys (data c) now)))"
proof -
  from assms have d: "distinct ks" and s: "set ks = fmdom' (data c)"
    by (simp_all add: range_order_def)
  have "expired_keys (data c) now \<inter> set ks = expired_keys (data c) now"
    using s expired_keys_subset [of "data c" now] by auto
  then have e: "Stats_range now (data c) ks 0 = int (card (expired_keys (data c) now))"
    using Stats_range_count [of ks "data c" now 0] d s by simp
  show "Stats c now ks ''total'' = Some (int (card (fmdom' (data c))))"
    by (simp add: Stats_def Let_def)
  show "Stats c now ks ''expired'' = Some (int (card (expired_keys (data c) now)))"
    by (simp add: Stats_def Let_def e)
  show "Stats c now ks ''active'' =
           Some (int (card (fmdom' (data c))) - int (card (expired_keys (data c) now)))"
    by (simp add: Stats_def Let_def e)
qed


lemma apply_cache_op_absent:
  "fmlookup (data c) k = None \<Longrightarrow> \<not> sets_key k x \<Longrightarrow> fmlookup (data (apply_cache_op c x)) k = None"
  by (cases x) (simp_all add: Set_def Delete_def cleanup_def cleanup_range_lookup)

lemma run_cache_ops_absent:
  "fmlookup (data c) k = None \<Longrightarrow> \<forall>x \<in> set xs. \<not> sets_key k x \<Longrightarrow>
   fmlookup (data (run_cache_ops c xs)) k = None"
proof (induction xs arbitrary: c)
  case Nil
  then show ?case by simp
next
  case (Cons x xs)
  then show ?case using apply_cache_op_absent [of c k x] by simp
qed

lemma Get_absent: "fmlookup (data c) k = None \<Longrightarrow> Get c now k = None"
  by (simp add: Get_def)

text \<open>
  Claim C1, as the code has it: \<open>Get\<close> returns \<open>(v, true)\<close> iff an entry with value \<open>v\<close> is
  present for the key and the clock has not passed its expiration time (\<open>now \<le> expiresAt\<close>:
  the source tests \<open>time.Now().After(item.ExpiresAt)\<close>). A deleted key is not found, and a
  key that no call has \<open>Set\<close> since the cache was made is not found.
\<close>

theorem Get_found_iff:
  "(Get c now k = Some v \<longleftrightarrow>
      (\<exists>e. fmlookup (data c) k = Some \<lparr>Data = v, ExpiresAt = e\<rparr> \<and> now \<le> e)) \<and>
   Get (Delete c k) now k = None \<and>
   ((\<forall>x \<in> set xs. \<not> sets_key k x) \<longrightarrow> Get (run_cache_ops (NewMemoryCache d) xs) now k = None)"
proof (intro conjI impI)
  show "Get c now k = Some v \<longleftrightarrow>
      (\<exists>e. fmlookup (data c) k = Some \<lparr>Data = v, ExpiresAt = e\<rparr> \<and> now \<le> e)"
    by (rule Get_Some_iff)
  show "Get (Delete c k) now k = None"
    by (simp add: Get_def Delete_def)
next
  assume "\<forall>x \<in> set xs. \<not> sets_key k x"
  moreover have "fmlookup (data (NewMemoryCache d :: 'b MemoryCache)) k = None"
    by (simp add: NewMemoryCache_def)
  ultimately have "fmlookup (data (run_cache_ops (NewMemoryCache d :: 'b MemoryCache) xs)) k = None"
    by (rule run_cache_ops_absent [rotated])
  then show "Get (run_cache_ops (NewMemoryCache d) xs) now k = (None :: 'b option)"
    by (rule Get_absent)
qed

text \<open>The witness of C1: a history that never sets \<open>''k''\<close>, and a key found before its expiry.\<close>

theorem Get_found_iff_witness:
  "\<not> sets_key ''k'' (OpSet 0 ''a'' (1::nat)) \<and>
   \<not> sets_key ''k'' (OpDelete ''a'' :: nat cache_op) \<and>
   \<not> sets_key ''k'' (OpCleanup 9 [''a''] :: nat cache_op) \<and>
   Get (run_cache_ops (NewMemoryCache 5) [OpSet 0 ''a'' (1::nat), OpDelete ''a'', OpCleanup 9 [''a'']]) 3 ''k'' = None \<and>
   Get (Set (NewMemoryCache 5) 0 ''k'' (1::nat)) 3 ''k'' = Some 1"
  using Get_found_iff [of "Set (NewMemoryCache 5) 0 ''k'' (1::nat)" 3 "''k''" 1
      "[OpSet 0 ''a'' (1::nat), OpDelete ''a'', OpCleanup 9 [''a'']]" 5]
  by (simp add: Set_def NewMemoryCache_def)

text \<open>
  Claim C1 as stated asks for \<open>now < expiresAt\<close>. At \<open>now = expiresAt\<close> the entry is still
  returned.
\<close>

theorem Get_at_expiry_counterexample:
  "Get (Set (NewMemoryCache 5) 0 ''k'' (1::nat)) 5 ''k'' = Some 1 \<and>
   fmlookup (data (Set (NewMemoryCache 5) 0 ''k'' (1::nat))) ''k'' = Some \<lparr>Data = 1, ExpiresAt = 5\<rparr> \<and>
   \<not> (5::int) < 5"
  by (simp add: Get_def Set_def NewMemoryCache_def After_def)

text \<open>
  Claim C3: \<open>Set\<close> stores the value with the expiration time \<open>now + ttl\<close> under the key,
  whatever entry \<open>old\<close> the key had before; it adds no other key, changes no other entry
  and leaves the configured TTL alone.
\<close>

theorem Set_overwrites:
  "fmlookup (data (Set c now k v)) k = Some \<lparr>Data = v, ExpiresAt = now + ttl c\<rparr> \<and>
   Set (c\<lparr>data := fmupd k old (data c)\<rparr>) now k v = Set c now k v \<and>
   fmdom' (data (Set c now k v)) = insert k (fmdom' (data c)) \<and>
   fmdrop k (data (Set c now k v)) = fmdrop k (data c) \<and>
   ttl (Set c now k v) = ttl c"
  by (simp add: Set_def fmdrop_fmupd_same)


text \<open>
  Claim C4, as the code has it: \<open>total\<close> is the number of entries present, \<open>expired\<close> the
  number of entries with \<open>expiresAt < now\<close>, \<open>active\<close> their difference, and
  \<open>active + expired = total\<close>, for every order in which the loop visits the entries.
\<close>

theorem Stats_counts:
  "range_order (data c) ks \<Longrightarrow>
   Stats c now ks ''total'' = Some (int (card (fmdom' (data c)))) \<and>
   Stats c now ks ''expired'' = Some (int (card (expired_keys (data c) now))) \<and>
   Stats c now ks ''active'' =
     Some (the (Stats c now ks ''total'') - the (Stats c now ks ''expired'')) \<and>
   the (Stats c now ks ''active'') + the (Stats c now ks ''expired'') =
     the (Stats c now ks ''total'')"
  using Stats_values [of c ks now] by simp

lemma stats_example_data:
  "data stats_example =
     fmupd ''c'' \<lparr>Data = 3, ExpiresAt = 9\<rparr>
       (fmupd ''b'' \<lparr>Data = 2, ExpiresAt = 7\<rparr>
         (fmupd ''a'' \<lparr>Data = 1, ExpiresAt = 5\<rparr> fmempty))"
  by (simp add: stats_example_def Set_def NewMemoryCache_def)

lemma stats_example_expired: "expired_keys (data stats_example) 7 = {''a''}"
  by (auto simp: stats_example_data expired_keys_def split: if_splits)

text \<open>The witness of C4: at time 7 one of the three entries has expired.\<close>

theorem Stats_counts_witness:
  "range_order (data stats_example) [''b'', ''c'', ''a''] \<and>
   Stats stats_example 7 [''b'', ''c'', ''a''] ''total'' = Some 3 \<and>
   Stats stats_example 7 [''b'', ''c'', ''a''] ''expired'' = Some 1 \<and>
   Stats stats_example 7 [''b'', ''c'', ''a''] ''active'' = Some 2"
proof -
  have r: "range_order (data stats_example) [''b'', ''c'', ''a'']"
    by (auto simp: range_order_def stats_example_data)
  have t: "card (fmdom' (data stats_example)) = 3"
    by (simp add: stats_example_data)
  show ?thesis
    using r Stats_counts [OF r, of 7] by (simp add: t stats_example_expired)
qed

text \<open>
  Claim C4 as stated counts the entries with \<open>expiresAt \<le> now\<close>. An entry with
  \<open>expiresAt = now\<close> is present and is not counted as expired.
\<close>

theorem Stats_expired_at_expiry_counterexample:
  "range_order (data (Set (NewMemoryCache 5) 0 ''k'' (1::nat))) [''k''] \<and>
   fmlookup (data (Set (NewMemoryCache 5) 0 ''k'' (1::nat))) ''k'' = Some \<lparr>Data = 1, ExpiresAt = 5\<rparr> \<and>
   (5::int) \<le> 5 \<and>
   Stats (Set (NewMemoryCache 5) 0 ''k'' (1::nat)) 5 [''k''] ''expired'' = Some 0 \<and>
   Stats (Set (NewMemoryCache 5) 0 ''k'' (1::nat)) 5 [''k''] ''total'' = Some 1"
  by (simp add: range_order_def Stats_def Set_def NewMemoryCache_def After_def)

text \<open>
  Claim C5, as the code has it: a pass of the sweep removes exactly the entries with
  \<open>expiresAt < now\<close>; every other entry is kept as it was, for every order in which the loop
  visits the entries.
\<close>

theorem cleanup_removes_expired:
  "range_order (data c) ks \<Longrightarrow>
   fmdom' (data (cleanup c now ks)) = fmdom' (data c) - expired_keys (data c) now \<and>
   (\<forall>k \<in> fmdom' (data (cleanup c now ks)).
      fmlookup (data (cleanup c now ks)) k = fmlookup (data c) k) \<and>
   ttl (cleanup c now ks) = ttl c"
proof -
  assume "range_order (data c) ks"
  then have s: "set ks = fmdom' (data c)" by (simp add: range_order_def)
  have l: "\<And>k. fmlookup (data (cleanup c now ks)) k =
      (case fmlookup (data c) k of None \<Rightarrow> None
       | Some item \<Rightarrow> if k \<in> set ks \<and> ExpiresAt item < now then None else Some item)"
    by (simp add: cleanup_def cleanup_range_lookup)
  have "fmdom' (data (cleanup c now ks)) = fmdom' (data c) - expired_keys (data c) now"
    by (auto simp: fmlookup_dom'_iff l s expired_keys_def split: option.splits if_splits)
  moreover have "\<forall>k \<in> fmdom' (data (cleanup c now ks)).
      fmlookup (data (cleanup c now ks)) k = fmlookup (data c) k"
    by (auto simp: fmlookup_dom'_iff l split: option.splits if_splits)
  moreover have "ttl (cleanup c now ks) = ttl c" by (simp add: cleanup_def)
  ultimately show ?thesis by blast
qed

text \<open>The witness of C5: at time 7 the sweep removes \<open>''a''\<close> and keeps the entry expiring at 7.\<close>

theorem cleanup_removes_expired_witness:
  "range_order (data stats_example) [''b'', ''c'', ''a''] \<and>
   fmdom' (data (cleanup stats_example 7 [''b'', ''c'', ''a''])) = {''b'', ''c''} \<and>
   fmlookup (data (cleanup stats_example 7 [''b'', ''c'', ''a''])) ''b'' = Some \<lparr>Data = 2, ExpiresAt = 7\<rparr>"
proof -
  have r: "range_order (data stats_example) [''b'', ''c'', ''a'']"
    by (auto simp: range_order_def stats_example_data)
  have b: "fmlookup (data stats_example) ''b'' = Some \<lparr>Data = 2, ExpiresAt = 7\<rparr>"
    by (simp add: stats_example_data)
  have d: "fmdom' (data stats_example) - expired_keys (data stats_example) 7 = {''b'', ''c''}"
    unfolding stats_example_expired by (auto simp: stats_example_data)
  show ?thesis
    using r cleanup_removes_expired [OF r, of 7] b d by auto
qed

text \<open>
  Claim C5 as stated removes the entries with \<open>expiresAt \<le> now\<close>. An entry with
  \<open>expiresAt = now\<close> survives the sweep.
\<close>

theorem cleanup_at_expiry_counterexample:
  "range_order (data (Set (NewMemoryCache 5) 0 ''k'' (1::nat))) [''k''] \<and>
   fmlookup (data (Set (NewMemoryCache 5) 0 ''k'' (1::nat))) ''k'' = Some \<lparr>Data = 1, ExpiresAt = 5\<rparr> \<and>
   (5::int) \<le> 5 \<and>
   fmlookup (data (cleanup (Set (NewMemoryCache 5) 0 ''k'' (1::nat)) 5 [''k''])) ''k'' =
     Some \<lparr>Data = 1, ExpiresAt = 5\<rparr>"
  by (simp add: range_order_def cleanup_def Set_def NewMemoryCache_def After_def)

lemma Get_after_Set_iff:
  "Get (Set c now k v) now' k = Some v \<longleftrightarrow> now' \<le> now + ttl c"
  by (auto simp: Get_def Set_def After_def)

text \<open>
  Claim C7: after \<open>Set(k, v)\<close>, with no call in between, \<open>Get(k)\<close> returns \<open>(v, true)\<close>.
  \<open>Set\<close> reads the clock at \<open>now\<close> and \<open>Get\<close> reads it again at \<open>now'\<close>; immediately after
  means that the configured TTL has not run out between the two readings.
\<close>

theorem Get_immediately_after_Set:
  "now' \<le> now + ttl c \<Longrightarrow> Get (Set c now k v) now' k = Some v"
  by (simp add: Get_after_Set_iff)

text \<open>The witness of C7: a TTL of one hour, and a \<open>Get\<close> 1500 nanoseconds after the \<open>Set\<close>.\<close>

theorem Get_immediately_after_Set_witness:
  "(1500::int) \<le> 0 + ttl (NewMemoryCache 3600000000000 :: nat MemoryCache) \<and>
   Get (Set (NewMemoryCache 3600000000000) 0 ''key1'' (1::nat)) 1500 ''key1'' = Some 1"
proof -
  have h: "(1500::int) \<le> 0 + ttl (NewMemoryCache 3600000000000 :: nat MemoryCache)"
    by (simp add: NewMemoryCache_def)
  show ?thesis
    using h Get_immediately_after_Set [OF h, of "''key1''" 1] by simp
qed

section \<open>Properties of the admission controller\<close>

lemma registry_okD:
  assumes "registry_ok i h" "fmlookup (limiters i) ip = Some r"
  shows "r < length h"
proof -
  from assms(2) have "ip \<in> fmdom' (limiters i)" by (rule fmdom'I)
  with assms(1) have "the (fmlookup (limiters i) ip) < length h"
    by (simp add: registry_ok_def)
  with assms(2) show ?thesis by simp
qed

lemma registry_ok_inj:
  assumes "registry_ok i h" "fmlookup (limiters i) ip = Some r" "fmlookup (limiters i) ip' = Some r"
  shows "ip = ip'"
proof -
  from assms(2,3) have "ip \<in> fmdom' (limiters i)" "ip' \<in> fmdom' (limiters i)"
    by (auto intro: fmdom'I)
  moreover from assms(1) have "inj_on (fmlookup (limiters i)) (fmdom' (limiters i))"
    by (simp add: registry_ok_def)
  moreover have "fmlookup (limiters i) ip = fmlookup (limiters i) ip'"
    using assms(2,3) by simp
  ultimately show ?thesis by (simp add: inj_on_def)
qed

lemma registry_okI:
  assumes "\<And>ip r. fmlookup (limiters i) ip = Some r \<Longrightarrow> r < length h"
    and "\<And>ip ip' r. fmlookup (limiters i) ip = Some r \<Longrightarrow> fmlookup (limiters i) ip' = Some r \<Longrightarrow> ip = ip'"
  shows "registry_ok i h"
  unfolding registry_ok_def
proof (intro conjI ballI inj_onI)
  fix ip assume "ip \<in> fmdom' (limiters i)"
  then obtain r where "fmlookup (limiters i) ip = Some r" by (auto simp: fmlookup_dom'_iff)
  then show "the (fmlookup (limiters i) ip) < length h" using assms(1) by simp
next
  fix x y assume "x \<in> fmdom' (limiters i)" "y \<in> fmdom' (limiters i)"
    "fmlookup (limiters i) x = fmlookup (limiters i) y"
  then show "x = y" using assms(2) by (auto simp: fmlookup_dom'_iff)
qed

lemma GetLimiter_present:
  "fmlookup (limiters i) ip = Some r \<Longrightarrow> GetLimiter i h ip = (r, i, h)"
  by (simp add: GetLimiter_def)

lemma GetLimiter_absent:
  "fmlookup (limiters i) ip = None \<Longrightarrow>
   GetLimiter i h ip =
     (length h, i\<lparr>limiters := fmupd ip (length h) (limiters i)\<rparr>, h @ [NewLimiter (limit i) (burst i)])"
  by (simp add: GetLimiter_def)

lemma GetLimiter_registry_ok:
  assumes ok: "registry_ok i h" and g: "GetLimiter i h ip = (r, i', h')"
  shows "registry_ok i' h'"
proof (cases "fmlookup (limiters i) ip")
  case (Some r0)
  with g ok show ?thesis by (simp add: GetLimiter_def)
next
  case None
  with g have i': "i' = i\<lparr>limiters := fmupd ip (length h) (limiters i)\<rparr>"
    and h': "h' = h @ [NewLimiter (limit i) (burst i)]"
    by (auto simp: GetLimiter_def)
  show ?thesis
  proof (rule registry_okI)
    fix a r1 assume "fmlookup (limiters i') a = Some r1"
    then show "r1 < length h'"
      using registry_okD [OF ok, of a r1] by (auto simp: i' h' split: if_splits)
  next
    fix a b r1 assume "fmlookup (limiters i') a = Some r1" "fmlookup (limiters i') b = Some r1"
    then show "a = b"
      using registry_okD [OF ok, of a r1] registry_okD [OF ok, of b r1]
        registry_ok_inj [OF ok, of a r1 b]
      by (auto simp: i' split: if_splits)
  qed
qed

lemma GetLimiter_bucket:
  assumes ok: "registry_ok i h" and g: "GetLimiter i h ip = (r, i', h')"
  shows "r < length h'" and "h' ! r = bucket_of i h ip" and "fmlookup (limiters i') ip = Some r"
    and "limit i' = limit i" and "burst i' = burst i"
    and "\<And>a. bucket_of i' h' a = bucket_of i h a"
    and "\<And>a r1. a \<noteq> ip \<Longrightarrow> fmlookup (limiters i') a = Some r1 \<Longrightarrow> r1 \<noteq> r"
proof -
  show "r < length h'" using ok g
    by (auto simp: GetLimiter_def split: option.splits dest: registry_okD)
  show "h' ! r = bucket_of i h ip" using g
    by (auto simp: GetLimiter_def bucket_of_def split: option.splits)
  show "fmlookup (limiters i') ip = Some r" using g
    by (auto simp: GetLimiter_def split: option.splits)
  show "limit i' = limit i" "burst i' = burst i" using g
    by (auto simp: GetLimiter_def split: option.splits)
  show "bucket_of i' h' a = bucket_of i h a" for a
  proof (cases "fmlookup (limiters i) ip")
    case (Some r0)
    with g show ?thesis by (simp add: GetLimiter_def bucket_of_def)
  next
    case None
    with g have i': "i' = i\<lparr>limiters := fmupd ip (length h) (limiters i)\<rparr>"
      and h': "h' = h @ [NewLimiter (limit i) (burst i)]"
      by (auto simp: GetLimiter_def)
    show ?thesis
    proof (cases "a = ip")
      case True
      with None show ?thesis by (simp add: bucket_of_def i' h')
    next
      case False
      show ?thesis
      proof (cases "fmlookup (limiters i) a")
        case None
        with False show ?thesis by (simp add: bucket_of_def i' h')
      next
        case (Some r1)
        then have "r1 < length h" by (rule registry_okD [OF ok])
        with Some False show ?thesis by (simp add: bucket_of_def i' h' nth_append)
      qed
    qed
  qed
  show "r1 \<noteq> r" if "a \<noteq> ip" "fmlookup (limiters i') a = Some r1" for a r1
  proof (cases "fmlookup (limiters i) ip")
    case (Some r0)
    with g have "i' = i" "r = r0" by (auto simp: GetLimiter_def)
    with that Some show ?thesis using registry_ok_inj [OF ok, of a r1 ip] by auto
  next
    case None
    with g have i': "i' = i\<lparr>limiters := fmupd ip (length h) (limiters i)\<rparr>" and r: "r = length h"
      by (auto simp: GetLimiter_def)
    from that have "fmlookup (limiters i) a = Some r1" by (simp add: i')
    then have "r1 < length h" by (rule registry_okD [OF ok])
    with r show ?thesis by simp
  qed
qed

lemma registry_ok_update:
  "registry_ok i h \<Longrightarrow> registry_ok i (h[r := b])"
  by (simp add: registry_ok_def)

lemma registry_ok_longer:
  assumes "registry_ok i h" "length h \<le> length h'"
  shows "registry_ok i h'"
  using assms by (fastforce simp: registry_ok_def)

lemma registry_ok_New: "registry_ok (NewIPRateLimiter rps b) []"
  by (simp add: registry_ok_def NewIPRateLimiter_def)

lemma RateLimitMiddleware_unfold:
  assumes ok: "registry_ok i h" and g: "GetLimiter i h ip = (r, i1, h1)"
  shows "RateLimitMiddleware i h ip now =
     Some (fst (Allow (bucket_of i h ip) now), i1, h1[r := snd (Allow (bucket_of i h ip) now)])"
proof -
  have "r < length h1" and "h1 ! r = bucket_of i h ip"
    using GetLimiter_bucket(1,2) [OF ok g] by simp_all
  then show ?thesis
    by (simp add: RateLimitMiddleware_def g Allow_at_def split: prod.splits)
qed

lemma RateLimitMiddleware_effect:
  assumes ok: "registry_ok i h"
    and m: "RateLimitMiddleware i h ip now = Some (res, i', h')"
  shows "res = fst (Allow (bucket_of i h ip) now)"
    and "bucket_of i' h' ip = snd (Allow (bucket_of i h ip) now)"
    and "\<And>a. a \<noteq> ip \<Longrightarrow> bucket_of i' h' a = bucket_of i h a"
    and "registry_ok i' h'"
    and "limit i' = limit i" and "burst i' = burst i"
proof -
  obtain r i1 h1 where g: "GetLimiter i h ip = (r, i1, h1)"
    by (cases "GetLimiter i h ip") auto
  note u = RateLimitMiddleware_unfold [OF ok g, of now]
  from m u have res: "res = fst (Allow (bucket_of i h ip) now)" and i': "i' = i1"
    and h': "h' = h1[r := snd (Allow (bucket_of i h ip) now)]"
    by simp_all
  note b = GetLimiter_bucket [OF ok g]
  show "res = fst (Allow (bucket_of i h ip) now)" by (rule res)
  show "bucket_of i' h' ip = snd (Allow (bucket_of i h ip) now)"
    using b(1) b(3) by (simp add: bucket_of_def i' h')
  show "bucket_of i' h' a = bucket_of i h a" if "a \<noteq> ip" for a
  proof (cases "fmlookup (limiters i1) a")
    case None
    then have "bucket_of i' h' a = bucket_of i1 h1 a" by (simp add: bucket_of_def i' h')
    then show ?thesis using b(6) by simp
  next
    case (Some r1)
    then have "r1 \<noteq> r" using b(7) [OF that] by simp
    with Some have "bucket_of i' h' a = bucket_of i1 h1 a" by (simp add: bucket_of_def i' h')
    then show ?thesis using b(6) by simp
  qed
  show "registry_ok i' h'"
    unfolding i' h' by (rule registry_ok_update) (rule GetLimiter_registry_ok [OF ok g])
  show "limit i' = limit i" "burst i' = burst i" using b(4,5) by (simp_all add: i')
qed

lemma RateLimitMiddleware_total:
  assumes ok: "registry_ok i h"
  shows "\<exists>res i' h'. RateLimitMiddleware i h ip now = Some (res, i', h')"
proof -
  obtain r i1 h1 where g: "GetLimiter i h ip = (r, i1, h1)"
    by (cases "GetLimiter i h ip") auto
  show ?thesis using RateLimitMiddleware_unfold [OF ok g, of now] by blast
qed

lemma Scrape_eq: "ScrapeRateLimitMiddleware i h ip now = RateLimitMiddleware i h ip now"
  by (simp add: ScrapeRateLimitMiddleware_def RateLimitMiddleware_def)

lemma CleanupOldEntries_range_sub:
  assumes "\<And>ip r. fmlookup m ip = Some r \<Longrightarrow> r < length h"
  shows "\<exists>m'. CleanupOldEntries_range b h ks m = Some m' \<and>
           (\<forall>ip r. fmlookup m' ip = Some r \<longrightarrow> fmlookup m ip = Some r)"
  using assms
proof (induction ks arbitrary: m)
  case Nil
  then show ?case by simp
next
  case (Cons x ks)
  obtain ip now where x: "x = (ip, now)" by (cases x)
  show ?case
  proof (cases "fmlookup m ip")
    case None
    then show ?thesis using Cons.IH [of m] Cons.prems by (simp add: x)
  next
    case (Some r)
    then have r: "r < length h" by (rule Cons.prems)
    have d: "\<And>a r1. fmlookup (fmdrop ip m) a = Some r1 \<Longrightarrow> r1 < length h"
      using Cons.prems by (auto split: if_splits)
    obtain m1 where m1: "CleanupOldEntries_range b h ks (fmdrop ip m) = Some m1"
      "\<forall>a r1. fmlookup m1 a = Some r1 \<longrightarrow> fmlookup (fmdrop ip m) a = Some r1"
      using Cons.IH [of "fmdrop ip m"] d by blast
    obtain m2 where m2: "CleanupOldEntries_range b h ks m = Some m2"
      "\<forall>a r1. fmlookup m2 a = Some r1 \<longrightarrow> fmlookup m a = Some r1"
      using Cons.IH [of m] Cons.prems by blast
    have m1': "\<forall>a r1. fmlookup m1 a = Some r1 \<longrightarrow> fmlookup m a = Some r1"
    proof (intro allI impI)
      fix a r1 assume "fmlookup m1 a = Some r1"
      with m1(2) have "fmlookup (fmdrop ip m) a = Some r1" by blast
      then show "fmlookup m a = Some r1" by (simp split: if_splits)
    qed
    show ?thesis
      using Some r m1(1) m1' m2 by (simp add: x Tokens_at_def)
  qed
qed

lemma CleanupOldEntries_registry_ok:
  assumes ok: "registry_ok i h"
  shows "\<exists>i'. CleanupOldEntries i h ks = Some i' \<and> registry_ok i' h \<and>
           limit i' = limit i \<and> burst i' = burst i \<and>
           (\<forall>ip r. fmlookup (limiters i') ip = Some r \<longrightarrow> fmlookup (limiters i) ip = Some r)"
proof -
  obtain m' where m': "CleanupOldEntries_range (burst i) h ks (limiters i) = Some m'"
    "\<forall>ip r. fmlookup m' ip = Some r \<longrightarrow> fmlookup (limiters i) ip = Some r"
    using CleanupOldEntries_range_sub [of "limiters i" h "burst i" ks] registry_okD [OF ok] by blast
  have "registry_ok (i\<lparr>limiters := m'\<rparr>) h"
  proof (rule registry_okI)
    fix ip r assume "fmlookup (limiters (i\<lparr>limiters := m'\<rparr>)) ip = Some r"
    then have "fmlookup (limiters i) ip = Some r" using m'(2) by simp
    then show "r < length h" by (rule registry_okD [OF ok])
  next
    fix ip ip' r assume "fmlookup (limiters (i\<lparr>limiters := m'\<rparr>)) ip = Some r"
      "fmlookup (limiters (i\<lparr>limiters := m'\<rparr>)) ip' = Some r"
    then have "fmlookup (limiters i) ip = Some r" "fmlookup (limiters i) ip' = Some r"
      using m'(2) by simp_all
    then show "ip = ip'" by (rule registry_ok_inj [OF ok])
  qed
  then show ?thesis using m' by (simp add: CleanupOldEntries_def)
qed

lemma cleanup_example:
  "CleanupOldEntries ((NewIPRateLimiter 60 60)\<lparr>limiters := fmupd ''1.2.3.4'' 0 fmempty\<rparr>)
     [NewLimiter 60 60] [(''1.2.3.4'', 9)] = Some (NewIPRateLimiter 60 60)"
  by (simp add: CleanupOldEntries_def Tokens_at_def Tokens_def refill_def NewLimiter_def
      NewIPRateLimiter_def fmdrop_fmupd_same)

text \<open>
  Claim C8: \<open>GetLimiter\<close> returns the limiter the registry has for the address and changes
  nothing, or else creates exactly one limiter, full (\<open>tokens = capacity = burst\<close>), and
  enters it for that address alone. A second call returns the same limiter and creates
  nothing. No two addresses ever share a limiter, also after \<open>CleanupOldEntries\<close>.
\<close>

theorem GetLimiter_one_bucket:
  "GetLimiter i h ip = (r, i', h') \<Longrightarrow>
   (case fmlookup (limiters i) ip of
      Some r0 \<Rightarrow> r = r0 \<and> i' = i \<and> h' = h
    | None \<Rightarrow>
        r = length h \<and> h' = h @ [h' ! r] \<and>
        tokens (h' ! r) = of_int (burst i) \<and> capacity (h' ! r) = burst i \<and>
        refillRatePerSecond (h' ! r) = limit i \<and>
        limiters i' = fmupd ip r (limiters i)) \<and>
   fmlookup (limiters i') ip = Some r \<and>
   GetLimiter i' h' ip = (r, i', h') \<and>
   (registry_ok i h \<longrightarrow>
      registry_ok i' h' \<and> r < length h' \<and>
      (\<exists>i''. CleanupOldEntries i h ks = Some i'' \<and> registry_ok i'' h))"
proof (intro conjI impI)
  assume g: "GetLimiter i h ip = (r, i', h')"
  show "case fmlookup (limiters i) ip of
      Some r0 \<Rightarrow> r = r0 \<and> i' = i \<and> h' = h
    | None \<Rightarrow>
        r = length h \<and> h' = h @ [h' ! r] \<and>
        tokens (h' ! r) = of_int (burst i) \<and> capacity (h' ! r) = burst i \<and>
        refillRatePerSecond (h' ! r) = limit i \<and>
        limiters i' = fmupd ip r (limiters i)"
    using g by (auto simp: GetLimiter_def NewLimiter_def split: option.splits)
  show l: "fmlookup (limiters i') ip = Some r"
    using g by (auto simp: GetLimiter_def split: option.splits)
  show "GetLimiter i' h' ip = (r, i', h')"
    using l by (rule GetLimiter_present)
  show "registry_ok i' h'" if "registry_ok i h"
    using that g by (rule GetLimiter_registry_ok)
  show "r < length h'" if "registry_ok i h"
    using GetLimiter_bucket(1) [OF that g] .
  show "\<exists>i''. CleanupOldEntries i h ks = Some i'' \<and> registry_ok i'' h" if "registry_ok i h"
    using CleanupOldEntries_registry_ok [OF that, of ks] by blast
qed

text \<open>
  The witness of C8: the first call for an address on a new registry, and the second call.
\<close>

theorem GetLimiter_one_bucket_witness:
  "GetLimiter (NewIPRateLimiter 60 60) [] ''1.2.3.4'' =
     (0, (NewIPRateLimiter 60 60)\<lparr>limiters := fmupd ''1.2.3.4'' 0 fmempty\<rparr>, [NewLimiter 60 60]) \<and>
   registry_ok (NewIPRateLimiter 60 60) [] \<and>
   registry_ok ((NewIPRateLimiter 60 60)\<lparr>limiters := fmupd ''1.2.3.4'' 0 fmempty\<rparr>) [NewLimiter 60 60] \<and>
   tokens ([NewLimiter 60 60] ! 0) = 60 \<and>
   GetLimiter ((NewIPRateLimiter 60 60)\<lparr>limiters := fmupd ''1.2.3.4'' 0 fmempty\<rparr>)
     [NewLimiter 60 60] ''1.2.3.4'' =
     (0, (NewIPRateLimiter 60 60)\<lparr>limiters := fmupd ''1.2.3.4'' 0 fmempty\<rparr>, [NewLimiter 60 60])"
proof -
  have g: "GetLimiter (NewIPRateLimiter 60 60) [] ''1.2.3.4'' =
     (0, (NewIPRateLimiter 60 60)\<lparr>limiters := fmupd ''1.2.3.4'' 0 fmempty\<rparr>, [NewLimiter 60 60])"
    by (simp add: GetLimiter_def NewIPRateLimiter_def)
  show ?thesis
    using GetLimiter_one_bucket [OF g] registry_ok_New [of 60 60] g
    by (simp add: NewIPRateLimiter_def)
qed




lemma Tokens_eq:
  "Tokens b now =
     min (of_int (capacity b))
       (tokens b + of_int (now - lastRefill b) / 1000000000 * refillRatePerSecond b)"
  by (simp add: Tokens_def refill_def)




lemma decision_depends_on_bucket:
  assumes "registry_ok i h" "registry_ok i' h'" "bucket_of i' h' a = bucket_of i h a"
  shows "map_option fst (RateLimitMiddleware i' h' a t) = map_option fst (RateLimitMiddleware i h a t)"
proof -
  obtain r1 i1 h1 where m1: "RateLimitMiddleware i h a t = Some (r1, i1, h1)"
    using RateLimitMiddleware_total [OF assms(1)] by blast
  obtain r2 i2 h2 where m2: "RateLimitMiddleware i' h' a t = Some (r2, i2, h2)"
    using RateLimitMiddleware_total [OF assms(2)] by blast
  show ?thesis
    using RateLimitMiddleware_effect(1) [OF assms(1) m1] RateLimitMiddleware_effect(1) [OF assms(2) m2]
    by (simp add: m1 m2 assms(3))
qed

lemma serve_all_frame:
  assumes "registry_ok i h" "B \<notin> fst ` set rs"
  shows "\<exists>out i' h'. serve_all i h rs = Some (out, i', h') \<and> registry_ok i' h' \<and>
           bucket_of i' h' B = bucket_of i h B"
  using assms
proof (induction rs arbitrary: i h)
  case Nil
  then show ?case by simp
next
  case (Cons x rs)
  obtain a t where x: "x = (a, t)" by (cases x)
  with Cons.prems have ne: "a \<noteq> B" and rest: "B \<notin> fst ` set rs" by auto
  obtain res i1 h1 where m: "RateLimitMiddleware i h a t = Some (res, i1, h1)"
    using RateLimitMiddleware_total [OF Cons.prems(1)] by blast
  note e = RateLimitMiddleware_effect [OF Cons.prems(1) m]
  from ne have b1: "bucket_of i1 h1 B = bucket_of i h B" using e(3) [of B] by simp
  obtain out i' h' where s: "serve_all i1 h1 rs = Some (out, i', h')" "registry_ok i' h'"
    "bucket_of i' h' B = bucket_of i1 h1 B"
    using Cons.IH [OF e(4) rest] by blast
  have "serve_all i h (x # rs) = Some (res # out, i', h')" by (simp add: x m s(1))
  with s b1 show ?case by simp
qed

lemma other_tier_frame:
  assumes g: "registry_ok g h" and s: "registry_ok s h"
    and d: "fmran' (limiters g) \<inter> fmran' (limiters s) = {}"
    and m: "RateLimitMiddleware g h ip now = Some (res, g', h')"
  shows "registry_ok s h'" and "fmran' (limiters g') \<inter> fmran' (limiters s) = {}"
    and "\<And>a. bucket_of s h' a = bucket_of s h a"
proof -
  obtain r g1 h1 where gl: "GetLimiter g h ip = (r, g1, h1)"
    by (cases "GetLimiter g h ip") auto
  note u = RateLimitMiddleware_unfold [OF g gl, of now]
  from m u have g': "g' = g1" and h': "h' = h1[r := snd (Allow (bucket_of g h ip) now)]"
    by simp_all
  have sref: "r1 < length h" if "fmlookup (limiters s) a = Some r1" for a r1
    using registry_okD [OF s that] .
  have len: "length h \<le> length h1" using gl
    by (auto simp: GetLimiter_def split: option.splits)
  have pre: "\<And>k. k < length h \<Longrightarrow> h1 ! k = h ! k" using gl
    by (auto simp: GetLimiter_def nth_append split: option.splits)
  have ran1: "fmran' (limiters g1) \<subseteq> insert r (fmran' (limiters g))" using gl
    by (auto simp: GetLimiter_def fmran'_def split: option.splits if_splits)
  have rnot: "r \<notin> fmran' (limiters s)"
  proof (cases "fmlookup (limiters g) ip")
    case (Some r0)
    with gl have "r = r0" by (simp add: GetLimiter_def)
    with Some have "r \<in> fmran' (limiters g)" by (auto intro: fmran'I)
    with d show ?thesis by auto
  next
    case None
    with gl have "r = length h" by (auto simp: GetLimiter_def)
    then show ?thesis using sref by (auto simp: fmran'_def)
  qed
  show "registry_ok s h'"
    unfolding h' using len by (intro registry_ok_update registry_ok_longer [OF s])
  show "fmran' (limiters g') \<inter> fmran' (limiters s) = {}"
    using ran1 rnot d unfolding g' by auto
  show "bucket_of s h' a = bucket_of s h a" for a
  proof (cases "fmlookup (limiters s) a")
    case None
    then show ?thesis by (simp add: bucket_of_def)
  next
    case (Some r1)
    then have "r1 \<in> fmran' (limiters s)" by (rule fmran'I)
    with rnot have "r1 \<noteq> r" by auto
    moreover have "r1 < length h" using sref [OF Some] .
    ultimately show ?thesis using Some pre by (simp add: bucket_of_def h')
  qed
qed

lemma routes_ok_SetupRoutes: "routes_ok (SetupRoutes cfg)"
  by (simp add: routes_ok_def SetupRoutes_def registry_ok_New) (simp add: NewIPRateLimiter_def fmran'_def)

lemma general_request_frame:
  assumes ok: "routes_ok s"
  shows "\<exists>res s'. general_request s A now = Some (res, s') \<and> routes_ok s' \<and> scrape s' = scrape s \<and>
           bucket_of (scrape s') (store s') a = bucket_of (scrape s) (store s) a \<and>
           map_option fst (ScrapeRateLimitMiddleware (scrape s') (store s') a t) =
           map_option fst (ScrapeRateLimitMiddleware (scrape s) (store s) a t)"
proof -
  from ok have g: "registry_ok (general s) (store s)" and sc: "registry_ok (scrape s) (store s)"
    and d: "fmran' (limiters (general s)) \<inter> fmran' (limiters (scrape s)) = {}"
    by (simp_all add: routes_ok_def)
  obtain res g' h' where m: "RateLimitMiddleware (general s) (store s) A now = Some (res, g', h')"
    using RateLimitMiddleware_total [OF g] by blast
  note e = RateLimitMiddleware_effect [OF g m]
  note f = other_tier_frame [OF g sc d m]
  define s' where "s' = s\<lparr>store := h', general := g'\<rparr>"
  have r: "general_request s A now = Some (res, s')"
    by (simp add: general_request_def m s'_def)
  have ok': "routes_ok s'"
    using e(4) f(1) f(2) by (simp add: routes_ok_def s'_def)
  have b: "bucket_of (scrape s') (store s') a = bucket_of (scrape s) (store s) a"
    using f(3) [of a] by (simp add: s'_def)
  have sc': "registry_ok (scrape s') (store s')" using f(1) by (simp add: s'_def)
  have "map_option fst (ScrapeRateLimitMiddleware (scrape s') (store s') a t) =
           map_option fst (ScrapeRateLimitMiddleware (scrape s) (store s) a t)"
    unfolding Scrape_eq by (rule decision_depends_on_bucket [OF sc sc' b])
  with r ok' b show ?thesis by (auto simp: s'_def)
qed

lemma scrape_request_frame:
  assumes ok: "routes_ok s"
  shows "\<exists>res s'. scrape_request s A now = Some (res, s') \<and> routes_ok s' \<and> general s' = general s \<and>
           bucket_of (general s') (store s') a = bucket_of (general s) (store s) a \<and>
           map_option fst (RateLimitMiddleware (general s') (store s') a t) =
           map_option fst (RateLimitMiddleware (general s) (store s) a t)"
proof -
  from ok have g: "registry_ok (general s) (store s)" and sc: "registry_ok (scrape s) (store s)"
    and d: "fmran' (limiters (scrape s)) \<inter> fmran' (limiters (general s)) = {}"
    by (auto simp: routes_ok_def)
  obtain res sc' h' where m: "RateLimitMiddleware (scrape s) (store s) A now = Some (res, sc', h')"
    using RateLimitMiddleware_total [OF sc] by blast
  note e = RateLimitMiddleware_effect [OF sc m]
  note f = other_tier_frame [OF sc g d m]
  define s' where "s' = s\<lparr>store := h', scrape := sc'\<rparr>"
  have r: "scrape_request s A now = Some (res, s')"
    by (simp add: scrape_request_def Scrape_eq m s'_def)
  have ok': "routes_ok s'"
    using e(4) f(1) f(2) by (auto simp: routes_ok_def s'_def)
  have b: "bucket_of (general s') (store s') a = bucket_of (general s) (store s) a"
    using f(3) [of a] by (simp add: s'_def)
  have g': "registry_ok (general s') (store s')" using f(1) by (simp add: s'_def)
  have "map_option fst (RateLimitMiddleware (general s') (store s') a t) =
           map_option fst (RateLimitMiddleware (general s) (store s) a t)"
    by (rule decision_depends_on_bucket [OF g g' b])
  with r ok' b show ?thesis by (auto simp: s'_def)
qed

lemma serve_example:
  "map_option fst (serve_all (NewIPRateLimiter 1 1) [] [(''A'', 0), (''A'', 1)]) = Some [True, False]"
  by (simp add: RateLimitMiddleware_def GetLimiter_def Allow_at_def Allow_def refill_def
      NewIPRateLimiter_def NewLimiter_def Let_def)

lemma serve_example_B:
  "map_option fst (RateLimitMiddleware (NewIPRateLimiter 1 1) [] ''B'' 1) = Some True"
  by (simp add: RateLimitMiddleware_def GetLimiter_def Allow_at_def Allow_def refill_def
      NewIPRateLimiter_def NewLimiter_def Let_def)

text \<open>
  Claim C9: the requests \<open>rs\<close> of addresses other than \<open>B\<close> leave the bucket of \<open>B\<close> and the
  decision on the next request of \<open>B\<close> as they were. A request served by one tier leaves
  the registry, the buckets and the decisions of the other tier as they were, and
  \<open>SetupRoutes\<close> starts the two tiers with separate, empty registries.
\<close>

theorem identities_and_tiers_independent:
  assumes "registry_ok i h" and "B \<notin> fst ` set rs" and "routes_ok s"
  shows "(\<exists>out i' h'. serve_all i h rs = Some (out, i', h') \<and>
            bucket_of i' h' B = bucket_of i h B \<and>
            map_option fst (RateLimitMiddleware i' h' B t) =
            map_option fst (RateLimitMiddleware i h B t)) \<and>
         (\<exists>res s'. general_request s A now = Some (res, s') \<and> routes_ok s' \<and> scrape s' = scrape s \<and>
            bucket_of (scrape s') (store s') a = bucket_of (scrape s) (store s) a \<and>
            map_option fst (ScrapeRateLimitMiddleware (scrape s') (store s') a t) =
            map_option fst (ScrapeRateLimitMiddleware (scrape s) (store s) a t)) \<and>
         (\<exists>res s'. scrape_request s A now = Some (res, s') \<and> routes_ok s' \<and> general s' = general s \<and>
            bucket_of (general s') (store s') a = bucket_of (general s) (store s) a \<and>
            map_option fst (RateLimitMiddleware (general s') (store s') a t) =
            map_option fst (RateLimitMiddleware (general s) (store s) a t)) \<and>
         routes_ok (SetupRoutes cfg) \<and>
         limiters (general (SetupRoutes cfg)) = fmempty \<and>
         limiters (scrape (SetupRoutes cfg)) = fmempty"
proof (intro conjI)
  obtain out i' h' where s: "serve_all i h rs = Some (out, i', h')" "registry_ok i' h'"
    "bucket_of i' h' B = bucket_of i h B"
    using serve_all_frame [OF assms(1,2)] by blast
  have "map_option fst (RateLimitMiddleware i' h' B t) = map_option fst (RateLimitMiddleware i h B t)"
    by (rule decision_depends_on_bucket [OF assms(1) s(2,3)])
  with s show "\<exists>out i' h'. serve_all i h rs = Some (out, i', h') \<and>
            bucket_of i' h' B = bucket_of i h B \<and>
            map_option fst (RateLimitMiddleware i' h' B t) =
            map_option fst (RateLimitMiddleware i h B t)"
    by blast
  show "\<exists>res s'. general_request s A now = Some (res, s') \<and> routes_ok s' \<and> scrape s' = scrape s \<and>
            bucket_of (scrape s') (store s') a = bucket_of (scrape s) (store s) a \<and>
            map_option fst (ScrapeRateLimitMiddleware (scrape s') (store s') a t) =
            map_option fst (ScrapeRateLimitMiddleware (scrape s) (store s) a t)"
    by (rule general_request_frame [OF assms(3)])
  show "\<exists>res s'. scrape_request s A now = Some (res, s') \<and> routes_ok s' \<and> general s' = general s \<and>
            bucket_of (general s') (store s') a = bucket_of (general s) (store s) a \<and>
            map_option fst (RateLimitMiddleware (general s') (store s') a t) =
            map_option fst (RateLimitMiddleware (general s) (store s) a t)"
    by (rule scrape_request_frame [OF assms(3)])
  show "routes_ok (SetupRoutes cfg)" by (rule routes_ok_SetupRoutes)
  show "limiters (general (SetupRoutes cfg)) = fmempty" "limiters (scrape (SetupRoutes cfg)) = fmempty"
    by (simp_all add: SetupRoutes_def NewIPRateLimiter_def)
qed

text \<open>
  The witness of C9: \<open>''A''\<close> uses up its bucket of one token; \<open>''B''\<close> is still allowed.
\<close>

theorem identities_and_tiers_independent_witness:
  "registry_ok (NewIPRateLimiter 1 1) [] \<and>
   ''B'' \<notin> fst ` set [(''A'', 0::int), (''A'', 1)] \<and>
   routes_ok (SetupRoutes \<lparr>RateLimitPerMinute = 60, ScrapeRateLimit = 10\<rparr>) \<and>
   map_option fst (serve_all (NewIPRateLimiter 1 1) [] [(''A'', 0), (''A'', 1)]) = Some [True, False] \<and>
   (\<exists>out i' h'. serve_all (NewIPRateLimiter 1 1) [] [(''A'', 0), (''A'', 1)] = Some (out, i', h') \<and>
      map_option fst (RateLimitMiddleware i' h' ''B'' 1) = Some True)"
proof -
  have r: "registry_ok (NewIPRateLimiter 1 1) []" by (rule registry_ok_New)
  have n: "''B'' \<notin> fst ` set [(''A'', 0::int), (''A'', 1)]" by simp
  have o: "routes_ok (SetupRoutes \<lparr>RateLimitPerMinute = 60, ScrapeRateLimit = 10\<rparr>)"
    by (rule routes_ok_SetupRoutes)
  show ?thesis
    using identities_and_tiers_independent [OF r n o, of 1] r n o serve_example serve_example_B
    by auto
qed

text \<open>
  Claim C6: \<open>NewIPRateLimiter(rps, burst)\<close> makes buckets that refill at \<open>rps\<close> tokens per
  second, \<open>SetupRoutes\<close> passes \<open>RateLimitPerMinute\<close> and \<open>ScrapeRateLimit\<close> as that rate and
  as the burst, and so a drained bucket of either tier is full again one second later.
\<close>

theorem per_minute_values_refill_per_second:
  assumes "tier = general (SetupRoutes cfg) \<or> tier = scrape (SetupRoutes cfg)"
    and "capacity b = burst tier" and "refillRatePerSecond b = limit tier"
    and "tokens b = 0" and "0 \<le> burst tier" and "1000000000 \<le> d"
  shows "limit (general (SetupRoutes cfg)) = of_int (RateLimitPerMinute cfg) \<and>
         burst (general (SetupRoutes cfg)) = RateLimitPerMinute cfg \<and>
         limit (scrape (SetupRoutes cfg)) = of_int (ScrapeRateLimit cfg) \<and>
         burst (scrape (SetupRoutes cfg)) = ScrapeRateLimit cfg \<and>
         refillRatePerSecond (bucket_of (NewIPRateLimiter rps n) [] ip) = of_int rps \<and>
         capacity (bucket_of (NewIPRateLimiter rps n) [] ip) = n \<and>
         Tokens b (lastRefill b + 1000000000) = of_int (capacity b) \<and>
         Tokens b (lastRefill b + d) = of_int (capacity b)"
proof -
  have lb: "limit tier = of_int (burst tier)"
    using assms(1) by (auto simp: SetupRoutes_def NewIPRateLimiter_def)
  have one: "Tokens b (lastRefill b + 1000000000) = of_int (capacity b)"
    by (simp add: Tokens_eq assms(2,3,4) lb)
  have "(1::rat) \<le> of_int d / 1000000000" using assms(6) by simp
  moreover have "(0::rat) \<le> of_int (burst tier)" using assms(5) by simp
  ultimately have "1 * (of_int (burst tier) :: rat) \<le> of_int d / 1000000000 * of_int (burst tier)"
    by (rule mult_right_mono)
  then have "(of_int (burst tier) :: rat) \<le> of_int d / 1000000000 * of_int (burst tier)"
    by (simp only: mult_1)
  then have atd: "Tokens b (lastRefill b + d) = of_int (capacity b)"
    by (simp add: Tokens_eq assms(2,3,4) lb min_def)
  show ?thesis
    using one atd
    by (simp add: SetupRoutes_def NewIPRateLimiter_def bucket_of_def NewLimiter_def)
qed

text \<open>
  The witness of C6: a drained bucket of the general tier (60 and 60) holds 60 tokens one
  second later, as it does one minute later.
\<close>

theorem per_minute_values_refill_per_second_witness:
  "(general (SetupRoutes \<lparr>RateLimitPerMinute = 60, ScrapeRateLimit = 10\<rparr>) =
      general (SetupRoutes \<lparr>RateLimitPerMinute = 60, ScrapeRateLimit = 10\<rparr>) \<or>
    general (SetupRoutes \<lparr>RateLimitPerMinute = 60, ScrapeRateLimit = 10\<rparr>) =
      scrape (SetupRoutes \<lparr>RateLimitPerMinute = 60, ScrapeRateLimit = 10\<rparr>)) \<and>
   capacity drained_example = burst (general (SetupRoutes \<lparr>RateLimitPerMinute = 60, ScrapeRateLimit = 10\<rparr>)) \<and>
   refillRatePerSecond drained_example =
     limit (general (SetupRoutes \<lparr>RateLimitPerMinute = 60, ScrapeRateLimit = 10\<rparr>)) \<and>
   tokens drained_example = 0 \<and>
   0 \<le> burst (general (SetupRoutes \<lparr>RateLimitPerMinute = 60, ScrapeRateLimit = 10\<rparr>)) \<and>
   (1000000000::int) \<le> 60000000000 \<and>
   Tokens drained_example 1000000005 = 60 \<and>
   Tokens drained_example 60000000005 = 60 \<and>
   limit (general (SetupRoutes \<lparr>RateLimitPerMinute = 60, ScrapeRateLimit = 10\<rparr>)) = 60"
proof -
  let ?cfg = "\<lparr>RateLimitPerMinute = 60, ScrapeRateLimit = 10\<rparr>"
  have 1: "general (SetupRoutes ?cfg) = general (SetupRoutes ?cfg) \<or>
           general (SetupRoutes ?cfg) = scrape (SetupRoutes ?cfg)" by simp
  have 2: "capacity drained_example = burst (general (SetupRoutes ?cfg))"
    by (simp add: drained_example_def NewLimiter_def SetupRoutes_def NewIPRateLimiter_def)
  have 3: "refillRatePerSecond drained_example = limit (general (SetupRoutes ?cfg))"
    by (simp add: drained_example_def NewLimiter_def SetupRoutes_def NewIPRateLimiter_def)
  have 4: "tokens drained_example = 0" by (simp add: drained_example_def)
  have 5: "0 \<le> burst (general (SetupRoutes ?cfg))"
    by (simp add: SetupRoutes_def NewIPRateLimiter_def)
  have 6: "(1000000000::int) \<le> 60000000000" by simp
  have l: "lastRefill drained_example = 5" "capacity drained_example = 60"
    by (simp_all add: drained_example_def NewLimiter_def)
  show ?thesis
    using per_minute_values_refill_per_second [OF 1 2 3 4 5 6, of 60 60 "''x''"] 2 3 4 5
    by (simp add: l)
qed

text \<open>
  Claim C10, as the code has it: the constructors accept every configuration value and
  store it unchanged; there is no failure path. Once constructed, the components are
  available: the middleware always reaches a decision and keeps the registry's invariant.
\<close>

theorem constructors_accept_every_configuration:
  "ttl (NewMemoryCache d) = d \<and> data (NewMemoryCache d) = fmempty \<and>
   limit (NewIPRateLimiter rps b) = of_int rps \<and> burst (NewIPRateLimiter rps b) = b \<and>
   limiters (NewIPRateLimiter rps b) = fmempty \<and>
   registry_ok (NewIPRateLimiter rps b) [] \<and>
   routes_ok (SetupRoutes cfg) \<and>
   (registry_ok i h \<longrightarrow>
      (\<exists>res i' h'. RateLimitMiddleware i h ip now = Some (res, i', h') \<and> registry_ok i' h') \<and>
      (\<exists>res i' h'. ScrapeRateLimitMiddleware i h ip now = Some (res, i', h') \<and> registry_ok i' h'))"
proof (intro conjI impI)
  show "ttl (NewMemoryCache d) = d" "data (NewMemoryCache d) = fmempty"
    by (simp_all add: NewMemoryCache_def)
  show "limit (NewIPRateLimiter rps b) = of_int rps" "burst (NewIPRateLimiter rps b) = b"
    "limiters (NewIPRateLimiter rps b) = fmempty"
    by (simp_all add: NewIPRateLimiter_def)
  show "registry_ok (NewIPRateLimiter rps b) []" by (rule registry_ok_New)
  show "routes_ok (SetupRoutes cfg)" by (rule routes_ok_SetupRoutes)
next
  assume ok: "registry_ok i h"
  obtain res i' h' where m: "RateLimitMiddleware i h ip now = Some (res, i', h')"
    using RateLimitMiddleware_total [OF ok] by blast
  have ok': "registry_ok i' h'" by (rule RateLimitMiddleware_effect(4) [OF ok m])
  from m ok' show "\<exists>res i' h'. RateLimitMiddleware i h ip now = Some (res, i', h') \<and> registry_ok i' h'"
    by blast
  from m ok' show "\<exists>res i' h'. ScrapeRateLimitMiddleware i h ip now = Some (res, i', h') \<and> registry_ok i' h'"
    unfolding Scrape_eq by blast
qed

text \<open>
  The witness of C10: a registry made with the rate \<open>-1\<close> and the burst 0 serves a request.
\<close>

theorem constructors_accept_every_configuration_witness:
  "registry_ok (NewIPRateLimiter (- 1) 0) [] \<and>
   (\<exists>res i' h'. RateLimitMiddleware (NewIPRateLimiter (- 1) 0) [] ''10.0.0.1'' 7 = Some (res, i', h') \<and>
      registry_ok i' h') \<and>
   ttl (NewMemoryCache 0 :: nat MemoryCache) = 0"
proof -
  have "ttl (NewMemoryCache 0 :: nat MemoryCache) = 0 \<and>
    data (NewMemoryCache 0 :: nat MemoryCache) = fmempty \<and>
    limit (NewIPRateLimiter (- 1) 0) = of_int (- 1) \<and> burst (NewIPRateLimiter (- 1) 0) = 0 \<and>
    limiters (NewIPRateLimiter (- 1) 0) = fmempty \<and>
    registry_ok (NewIPRateLimiter (- 1) 0) [] \<and>
    routes_ok (SetupRoutes \<lparr>RateLimitPerMinute = 60, ScrapeRateLimit = 10\<rparr>) \<and>
    (registry_ok (NewIPRateLimiter (- 1) 0) [] \<longrightarrow>
      (\<exists>res i' h'. RateLimitMiddleware (NewIPRateLimiter (- 1) 0) [] ''10.0.0.1'' 7 = Some (res, i', h') \<and>
         registry_ok i' h') \<and>
      (\<exists>res i' h'. ScrapeRateLimitMiddleware (NewIPRateLimiter (- 1) 0) [] ''10.0.0.1'' 7 = Some (res, i', h') \<and>
         registry_ok i' h'))"
    by (rule constructors_accept_every_configuration)
  then show ?thesis by blast
qed

text \<open>
  Claim C10 as stated has a non-positive TTL, capacity or rate rejected at construction.
  The constructors return a cache and a registry that carry them.
\<close>

theorem invalid_configuration_accepted_counterexample:
  "ttl (NewMemoryCache (- 1) :: nat MemoryCache) = - 1 \<and>
   burst (NewIPRateLimiter (- 1) (- 1)) = - 1 \<and>
   limit (NewIPRateLimiter (- 1) (- 1)) = - 1 \<and>
   \<not> (0::int) < - 1"
  by (simp add: NewMemoryCache_def NewIPRateLimiter_def)

end
